theory Spec2Isabelle
  imports Main "HOL-Library.Sublist"
begin

section \<open>Data model\<close>

text \<open>
  A Python \<^verbatim>\<open>str\<close> is a sequence of Unicode code points. The normalization table of
  \<^verbatim>\<open>get_remaining_chars_to_send\<close> has keys beyond U+00FF, so a code point is a natural
  number and a Python string is a list of them. The two ledgers \<^verbatim>\<open>chars_to_send\<close> and
  \<^verbatim>\<open>chars_received\<close> are Python lists of strings: \<^verbatim>\<open>chat_completion\<close> appends the
  characters of every delta one by one, \<^verbatim>\<open>listen\<close> extends the second list with the
  strings of the provider's \<^verbatim>\<open>normalizedAlignment.chars\<close>.
\<close>

type_synonym codepoint = nat
type_synonym pystr = "codepoint list"

text \<open>An ASCII literal as a Python string, and Python's \<^verbatim>\<open>list(s)\<close>: one string per character.\<close>

definition str :: "string \<Rightarrow> pystr" where
  "str s = map of_char s"

definition chars :: "string \<Rightarrow> pystr list" where
  "chars s = map (\<lambda>c. [of_char c]) s"

definition newline :: pystr where
  "newline = [0x0A]"

definition space :: codepoint where
  "space = 0x20"

section \<open>The alignment computation: \<^verbatim>\<open>get_remaining_chars_to_send\<close>\<close>

text \<open>The only exception that leaves the function: the \<^verbatim>\<open>raise Exception(...)\<close> of the
  branch beyond the displacement tolerance.\<close>

datatype error = AlignmentFailure

text \<open>The dictionary \<^verbatim>\<open>special_chars\<close> of \<^verbatim>\<open>custom_decode\<close>, in source order.\<close>

definition special_chars :: "(pystr \<times> pystr) list" where
  "special_chars =
    [([0x2018], [0x27]),
     ([0x2019], [0x27]),
     ([0x201C], [0x22]),
     ([0x201D], [0x22]),
     ([0x2013], [0x2D]),
     ([0x2014], [0x2D]),
     ([0x2026], [0x2E, 0x2E, 0x2E]),
     ([0x2022], [0x2A]),
     ([0x00A3], [0x47, 0x42, 0x50]),
     ([0x20AC], [0x45, 0x55, 0x52]),
     ([0x00D7], [0x78]),
     ([0x00F7], [0x2F])]"

text \<open>\<^verbatim>\<open>special_chars.get(char, char)\<close>.\<close>

definition custom_decode :: "pystr \<Rightarrow> pystr" where
  "custom_decode char = (case map_of special_chars char of None \<Rightarrow> char | Some v \<Rightarrow> v)"

text \<open>\<^verbatim>\<open>xs.index(x)\<close>: the first position of \<open>x\<close>, \<open>None\<close> for Python's ValueError.\<close>

fun list_index :: "'a list \<Rightarrow> 'a \<Rightarrow> nat option" where
  "list_index [] x = None"
| "list_index (y # ys) x = (if y = x then Some 0 else map_option Suc (list_index ys x))"

text \<open>\<^verbatim>\<open>xs.index(x, j)\<close> for \<open>j \<ge> 0\<close>: the first position at or after \<open>j\<close>.\<close>

definition index_from :: "'a list \<Rightarrow> 'a \<Rightarrow> nat \<Rightarrow> nat option" where
  "index_from xs x j = map_option (\<lambda>k. j + k) (list_index (drop j xs) x)"

definition displacement_tolerance :: nat where
  "displacement_tolerance = 2"

text \<open>
  One iteration of the \<^verbatim>\<open>for i in range(len(chars_to_send_formatted))\<close> loop, for the
  character \<open>char\<close> at the cursor \<open>j\<close>: the loop goes on with a new cursor, breaks with
  \<^verbatim>\<open>continue_point = i\<close>, or raises.
\<close>

datatype step = Next nat | Break | Raise error

definition loop_body :: "pystr list \<Rightarrow> pystr \<Rightarrow> nat \<Rightarrow> step" where
  "loop_body chars_received_formatted char j =
    (if char = newline then Next j
     else if j < length chars_received_formatted then
       (case index_from chars_received_formatted char j of
          Some index_of_next_matching_char \<Rightarrow>
            if index_of_next_matching_char = j then Next (j + 1)
            else if index_of_next_matching_char - j \<le> displacement_tolerance
              then Next (index_of_next_matching_char + 1)
            else Raise AlignmentFailure
        | None \<Rightarrow> Break)
     else Break)"

text \<open>
  The loop from index \<open>i\<close> on, over the characters not yet visited. Its result is the
  state after the loop: \<^verbatim>\<open>continue_point\<close> (\<open>None\<close> when the loop ran to its end) and
  the cursor \<open>j\<close>.
\<close>

fun scan :: "pystr list \<Rightarrow> pystr list \<Rightarrow> nat \<Rightarrow> nat \<Rightarrow> error + (nat option \<times> nat)" where
  "scan [] chars_received_formatted i j = Inr (None, j)"
| "scan (char # rest) chars_received_formatted i j =
    (case loop_body chars_received_formatted char j of
       Next j' \<Rightarrow> scan rest chars_received_formatted (i + 1) j'
     | Break \<Rightarrow> Inr (Some i, j)
     | Raise e \<Rightarrow> Inl e)"

text \<open>The value of \<^verbatim>\<open>continue_point\<close> after the loop, for the function's two arguments.\<close>

definition continue_point :: "pystr list \<Rightarrow> pystr list \<Rightarrow> error + nat option" where
  "continue_point chars_to_send chars_received =
    map_sum id fst (scan (map custom_decode chars_to_send) (drop 1 chars_received) 0 0)"

definition get_remaining_chars_to_send :: "pystr list \<Rightarrow> pystr list \<Rightarrow> error + pystr list" where
  "get_remaining_chars_to_send chars_to_send chars_received =
    (case continue_point chars_to_send chars_received of
       Inl e \<Rightarrow> Inl e
     | Inr None \<Rightarrow> Inr []
     | Inr (Some cp) \<Rightarrow> Inr (drop cp chars_to_send))"


section \<open>The word chunker: \<^verbatim>\<open>text_chunker\<close>\<close>

text \<open>
  Both queues carry strings and the end marker \<^verbatim>\<open>None\<close>: an item is a
  \<open>pystr option\<close>. The body of \<^verbatim>\<open>for char in text\<close> works on the buffer and on the
  items put on the output queue so far.
\<close>

type_synonym queue_item = "pystr option"

fun chunk_char :: "pystr \<times> queue_item list \<Rightarrow> codepoint \<Rightarrow> pystr \<times> queue_item list" where
  "chunk_char (buffer, output_queue) char =
    (if char = space then
       (if buffer \<noteq> [] then ([], output_queue @ [Some (buffer @ [space])])
        else (buffer, output_queue))
     else (buffer @ [char], output_queue))"

text \<open>
  The \<^verbatim>\<open>while True\<close> loop over the items that \<^verbatim>\<open>input_queue.get()\<close> delivers. It ends
  at the first \<^verbatim>\<open>None\<close>; when the items run out before one arrives, the coroutine stays
  suspended in \<^verbatim>\<open>get()\<close>. The result is what was put on the output queue, and whether
  the function returned.
\<close>

datatype run_status = Finished | AwaitingInput

fun text_chunker_loop ::
  "queue_item list \<Rightarrow> pystr \<Rightarrow> queue_item list \<Rightarrow> queue_item list \<times> run_status" where
  "text_chunker_loop [] buffer output_queue = (output_queue, AwaitingInput)"
| "text_chunker_loop (None # rest) buffer output_queue =
    ((if buffer \<noteq> [] then output_queue @ [Some (buffer @ [space])] else output_queue) @ [None],
     Finished)"
| "text_chunker_loop (Some text # rest) buffer output_queue =
    (case foldl chunk_char (buffer, output_queue) text of
       (buffer', output_queue') \<Rightarrow> text_chunker_loop rest buffer' output_queue')"

definition text_chunker :: "queue_item list \<Rightarrow> queue_item list \<times> run_status" where
  "text_chunker input_queue = text_chunker_loop input_queue [] []"

text \<open>What the input queue delivers for one utterance: text fragments, then the end marker.\<close>

definition fragments_then_end :: "pystr list \<Rightarrow> queue_item list" where
  "fragments_then_end fragments = map Some fragments @ [None]"

text \<open>
  The specification's reading of the output: the TextUnits are the items before the end
  marker, and the text is rebuilt by joining them after one trailing space is stripped
  from the last one.
\<close>

definition text_units :: "queue_item list \<Rightarrow> pystr list" where
  "text_units output_queue = map the (filter (\<lambda>item. item \<noteq> None) output_queue)"

definition strip_one_trailing_space :: "pystr \<Rightarrow> pystr" where
  "strip_one_trailing_space unit =
    (if unit \<noteq> [] \<and> last unit = space then butlast unit else unit)"

definition reconstruct :: "pystr list \<Rightarrow> pystr" where
  "reconstruct units =
    (if units = [] then []
     else concat (butlast units) @ strip_one_trailing_space (last units))"

text \<open>A TextUnit of the data model: a non-empty run of non-space characters and one space.\<close>

definition is_text_unit :: "pystr \<Rightarrow> bool" where
  "is_text_unit unit =
    (unit \<noteq> [] \<and> last unit = space \<and> butlast unit \<noteq> [] \<and> space \<notin> set (butlast unit))"

text \<open>Texts whose words are separated by exactly one space, with no space at either end.\<close>

fun no_double_space :: "pystr \<Rightarrow> bool" where
  "no_double_space (a # b # cs) = (\<not> (a = space \<and> b = space) \<and> no_double_space (b # cs))"
| "no_double_space cs = True"

definition single_spaced :: "pystr \<Rightarrow> bool" where
  "single_spaced text =
    (text = [] \<or> (hd text \<noteq> space \<and> last text \<noteq> space \<and> no_double_space text))"

section \<open>The playback process: \<^verbatim>\<open>MPVProcessSingleton\<close>\<close>

text \<open>
  What \<^verbatim>\<open>start_process\<close> reads and changes outside the object: whether
  \<^verbatim>\<open>shutil.which("mpv")\<close> finds the executable, how many processes
  \<^verbatim>\<open>subprocess.Popen\<close> has launched (a handle is the number of its launch), and what
  \<^verbatim>\<open>poll()\<close> answers for a handle: \<open>None\<close> while the process runs, its return code
  afterwards. \<^verbatim>\<open>Popen\<close> is taken to succeed whenever the executable is found.
\<close>

type_synonym handle = nat

record os_state =
  mpv_on_path :: bool
  launched :: nat
  poll :: "handle \<Rightarrow> int option"

record MPVProcessSingleton =
  process :: "handle option"

datatype sink_error = MpvNotFound

definition Popen :: "os_state \<Rightarrow> handle \<times> os_state" where
  "Popen os = (launched os,
     os\<lparr>launched := launched os + 1, poll := (poll os)(launched os := None)\<rparr>)"

text \<open>
  The result holds the exception raised, if any, and the object and the system as the
  call leaves them.
\<close>

definition start_process ::
  "os_state \<Rightarrow> MPVProcessSingleton \<Rightarrow> sink_error option \<times> MPVProcessSingleton \<times> os_state" where
  "start_process os self =
    (if \<not> mpv_on_path os then (Some MpvNotFound, self, os)
     else if (case process self of None \<Rightarrow> True | Some p \<Rightarrow> poll os p \<noteq> None) then
       (case Popen os of (p, os') \<Rightarrow> (None, self\<lparr>process := Some p\<rparr>, os'))
     else (None, self, os))"

section \<open>Properties of the alignment computation\<close>

lemma custom_decode_newline: "custom_decode c = newline \<longleftrightarrow> c = newline"
  by (simp add: custom_decode_def special_chars_def newline_def)

lemma custom_decode_fixes_newline: "custom_decode newline = newline"
  by (simp add: custom_decode_newline)

lemma list_index_None: "list_index xs x = None \<longleftrightarrow> x \<notin> set xs"
  by (induction xs) auto


lemma list_index_append_fresh:
  "x \<notin> set xs \<Longrightarrow> list_index (xs @ x # ys) x = Some (length xs)"
  by (induction xs) auto

lemma index_from_None: "index_from xs x j = None \<longleftrightarrow> x \<notin> set (drop j xs)"
  by (simp add: index_from_def list_index_None)




lemma loop_body_newline: "loop_body recv newline j = Next j"
  by (simp add: loop_body_def)



lemma scan_append:
  "scan (pre @ rest) recv i j0 =
    (case scan pre recv i j0 of
       Inr (None, j) \<Rightarrow> scan rest recv (i + length pre) j
     | r \<Rightarrow> r)"
proof (induction pre arbitrary: i j0)
  case Nil
  show ?case by simp
next
  case (Cons c pre)
  show ?case
    by (cases "loop_body recv c j0")
      (simp_all add: Cons.IH split: sum.splits prod.splits option.splits)
qed

lemma scan_continue_point:
  "scan fmt recv i j = Inr (Some cp, j') \<Longrightarrow>
     i \<le> cp \<and> cp < i + length fmt \<and> fmt ! (cp - i) \<noteq> newline"
proof (induction fmt arbitrary: i j)
  case Nil
  then show ?case by simp
next
  case (Cons c cs)
  show ?case
  proof (cases "loop_body recv c j")
    case (Next j2)
    with Cons.prems have "scan cs recv (i + 1) j2 = Inr (Some cp, j')" by simp
    from Cons.IH [OF this]
    have b: "i + 1 \<le> cp" "cp < i + 1 + length cs" and n: "cs ! (cp - (i + 1)) \<noteq> newline"
      by auto
    from b have "cp - i = Suc (cp - (i + 1))" by arith
    with b n show ?thesis by simp
  next
    case Break
    with Cons.prems have "cp = i" by simp
    moreover from Break have "c \<noteq> newline" by (auto simp: loop_body_def)
    ultimately show ?thesis by simp
  next
    case (Raise e)
    with Cons.prems show ?thesis by simp
  qed
qed


lemmas alignment_defs =
  get_remaining_chars_to_send_def continue_point_def chars_def loop_body_def index_from_def
  custom_decode_def special_chars_def newline_def displacement_tolerance_def


text \<open>
  C1, as the specification states it: \<open>sent = "Hello world "\<close> and
  \<open>confirmed = " Hello"\<close> resume at index 6 with the characters of \<open>"world "\<close>. The
  code does neither: after the five characters of \<open>"Hello"\<close> the cursor is at the end of
  the confirmed characters, and the space at index 5 is the first unmatched one.
\<close>

theorem hello_does_not_resume_at_six:
  "continue_point (chars ''Hello world '') (chars '' Hello'') \<noteq> Inr (Some 6) \<and>
   get_remaining_chars_to_send (chars ''Hello world '') (chars '' Hello'') \<noteq> Inr (chars ''world '')"
  by (simp add: alignment_defs)

text \<open>
  C1, amended: for these inputs the resume point is index 5 and the result is the
  characters of \<open>" world "\<close>, the unconfirmed space first.
\<close>

theorem hello_resumes_at_five:
  "continue_point (chars ''Hello world '') (chars '' Hello'') = Inr (Some 5) \<and>
   get_remaining_chars_to_send (chars ''Hello world '') (chars '' Hello'') = Inr (chars '' world '')"
  by (simp add: alignment_defs)

text \<open>
  C2, as the specification states it: \<open>sent = "Hello world "\<close> and
  \<open>confirmed = " Hello world"\<close> give the empty list. The code returns a list that is not
  empty: the confirmed characters end before the trailing space of \<open>sent\<close>.
\<close>

theorem hello_world_result_not_empty:
  "get_remaining_chars_to_send (chars ''Hello world '') (chars '' Hello world'') \<noteq> Inr []"
  by (simp add: alignment_defs)

text \<open>
  C2, amended: for these inputs the resume point is index 11 and the result is the one
  trailing space of \<open>sent\<close>.
\<close>

theorem hello_world_resends_trailing_space:
  "continue_point (chars ''Hello world '') (chars '' Hello world'') = Inr (Some 11) \<and>
   get_remaining_chars_to_send (chars ''Hello world '') (chars '' Hello world'') = Inr (chars '' '')"
  by (simp add: alignment_defs)




text \<open>
  C4: whenever the function returns, the result is empty, with no resume point set, or
  it is \<open>sent[i:]\<close> for the resume point \<open>i\<close>, an index of \<open>sent\<close>, where \<open>sent\<close> is
  the argument as passed, not its normalized copy. Either way the result is a suffix of
  \<open>sent\<close>.
\<close>

theorem result_is_suffix_of_sent:
  assumes "get_remaining_chars_to_send sent confirmed = Inr result"
  shows "((continue_point sent confirmed = Inr None \<and> result = []) \<or>
          (\<exists>i. continue_point sent confirmed = Inr (Some i) \<and> i < length sent \<and>
               result = drop i sent)) \<and>
         suffix result sent"
proof (cases "continue_point sent confirmed")
  case (Inl e)
  with assms show ?thesis by (simp add: get_remaining_chars_to_send_def)
next
  case (Inr cp)
  show ?thesis
  proof (cases cp)
    case None
    with Inr assms show ?thesis by (simp add: get_remaining_chars_to_send_def)
  next
    case (Some i)
    with Inr obtain j where
      "scan (map custom_decode sent) (drop 1 confirmed) 0 0 = Inr (Some i, j)"
      by (cases "scan (map custom_decode sent) (drop 1 confirmed) 0 0")
        (auto simp: continue_point_def)
    from scan_continue_point [OF this] have "i < length sent" by simp
    moreover from Inr Some assms have "result = drop i sent"
      by (simp add: get_remaining_chars_to_send_def)
    ultimately show ?thesis using Inr Some by (simp add: suffix_drop)
  qed
qed

theorem result_is_suffix_of_sent_witness:
  "get_remaining_chars_to_send (chars ''Hello world '') (chars '' Hello'') = Inr (chars '' world '') \<and>
   (\<exists>i. continue_point (chars ''Hello world '') (chars '' Hello'') = Inr (Some i) \<and>
        i < length (chars ''Hello world '') \<and> chars '' world '' = drop i (chars ''Hello world '')) \<and>
   suffix (chars '' world '') (chars ''Hello world '')"
proof -
  have h: "get_remaining_chars_to_send (chars ''Hello world '') (chars '' Hello'') = Inr (chars '' world '')"
    by (simp add: alignment_defs)
  have c: "continue_point (chars ''Hello world '') (chars '' Hello'') \<noteq> Inr None"
    by (simp add: alignment_defs)
  from result_is_suffix_of_sent [OF h] h c show ?thesis
    by simp
qed


text \<open>
  C6: an iteration on a line break goes on to the next index with the cursor \<open>j\<close> as
  it was, whatever \<open>confirmed\<close> holds; so the cursor with which the loop leaves a prefix
  of \<open>sent\<close> is the same with a line break appended to the prefix; and a resume point is
  never the index of a line break of \<open>sent\<close>.
\<close>

theorem line_break_keeps_cursor:
  "loop_body recv newline j = Next j \<and>
   scan (newline # rest) recv i j = scan rest recv (i + 1) j \<and>
   (scan (map custom_decode pre) (drop 1 confirmed) 0 0 = Inr (None, j) \<longrightarrow>
      scan (map custom_decode (pre @ [newline])) (drop 1 confirmed) 0 0 = Inr (None, j)) \<and>
   (continue_point sent confirmed = Inr (Some cp) \<longrightarrow> cp < length sent \<and> sent ! cp \<noteq> newline)"
proof (intro conjI impI)
  show "loop_body recv newline j = Next j"
    by (rule loop_body_newline)
  show "scan (newline # rest) recv i j = scan rest recv (i + 1) j"
    by (simp add: loop_body_newline)
next
  assume "scan (map custom_decode pre) (drop 1 confirmed) 0 0 = Inr (None, j)"
  then show "scan (map custom_decode (pre @ [newline])) (drop 1 confirmed) 0 0 = Inr (None, j)"
    by (simp add: scan_append custom_decode_fixes_newline loop_body_newline)
next
  assume cp: "continue_point sent confirmed = Inr (Some cp)"
  then obtain j' where
    s: "scan (map custom_decode sent) (drop 1 confirmed) 0 0 = Inr (Some cp, j')"
    by (cases "scan (map custom_decode sent) (drop 1 confirmed) 0 0")
      (auto simp: continue_point_def)
  from scan_continue_point [OF s]
  have b: "cp < length sent" and n: "map custom_decode sent ! cp \<noteq> newline"
    by auto
  from b show "cp < length sent" .
  from b n have "custom_decode (sent ! cp) \<noteq> newline"
    by simp
  then show "sent ! cp \<noteq> newline"
    by (simp add: custom_decode_newline)
qed

theorem line_break_keeps_cursor_witness:
  "scan (map custom_decode (chars ''ab'')) (drop 1 (chars '' ab'')) 0 0 = Inr (None, 2) \<and>
   scan (map custom_decode (chars ''ab'' @ [newline])) (drop 1 (chars '' ab'')) 0 0 = Inr (None, 2) \<and>
   continue_point (chars ''ab'' @ [newline] @ chars ''cd'') (chars '' ab'') = Inr (Some 3) \<and>
   (chars ''ab'' @ [newline] @ chars ''cd'') ! 3 \<noteq> newline"
proof -
  have h1: "scan (map custom_decode (chars ''ab'')) (drop 1 (chars '' ab'')) 0 0 = Inr (None, 2)"
    by (simp add: alignment_defs)
  have h2: "continue_point (chars ''ab'' @ [newline] @ chars ''cd'') (chars '' ab'') = Inr (Some 3)"
    by (simp add: alignment_defs)
  from line_break_keeps_cursor [of "drop 1 (chars '' ab'')" 2 "[]" 0 "chars ''ab''" "chars '' ab''"
      "chars ''ab'' @ [newline] @ chars ''cd''" 3] h1 h2
  show ?thesis by simp
qed








lemma continue_point_at:
  assumes "scan (map custom_decode pre) (drop 1 confirmed) 0 0 = Inr (None, j)"
  shows "continue_point (pre @ c # rest) confirmed =
           map_sum id fst (scan (custom_decode c # map custom_decode rest) (drop 1 confirmed)
             (length pre) j)"
  using assms by (simp add: continue_point_def scan_append)











text \<open>
  C10: the pound sign, the euro sign and the horizontal ellipsis are normalized to the
  three-character strings \<open>"GBP"\<close>, \<open>"EUR"\<close> and \<open>"..."\<close>, which no one-character
  string equals. When the loop reaches such a character of \<open>sent\<close> with the cursor \<open>j\<close>
  in bounds and its replacement does not occur in \<open>confirmed[j:]\<close> (the artifact
  dropped), its index is the resume point and the result is the original \<open>sent\<close> from
  that character on.
\<close>

theorem multi_character_replacement_is_resume_point:
  assumes "c \<in> {[0xA3], [0x20AC], [0x2026]}"
    and "scan (map custom_decode pre) (drop 1 confirmed) 0 0 = Inr (None, j)"
    and "j < length (drop 1 confirmed)"
    and "custom_decode c \<notin> set (drop j (drop 1 confirmed))"
  shows "custom_decode c \<in> {str ''GBP'', str ''EUR'', str ''...''} \<and>
         custom_decode c \<noteq> [x] \<and>
         continue_point (pre @ c # rest) confirmed = Inr (Some (length pre)) \<and>
         get_remaining_chars_to_send (pre @ c # rest) confirmed = Inr (c # rest)"
proof -
  from assms(1) have table: "custom_decode c \<in> {str ''GBP'', str ''EUR'', str ''...''}"
    by (auto simp: custom_decode_def special_chars_def str_def)
  then have single: "custom_decode c \<noteq> [x]" and nl: "custom_decode c \<noteq> newline"
    by (auto simp: str_def newline_def)
  from assms(4) have "index_from (drop 1 confirmed) (custom_decode c) j = None"
    by (simp only: index_from_None not_False_eq_True)
  with nl assms(3) have "loop_body (drop 1 confirmed) (custom_decode c) j = Break"
    by (simp add: loop_body_def)
  then have cp: "continue_point (pre @ c # rest) confirmed = Inr (Some (length pre))"
    by (simp add: continue_point_at [OF assms(2)])
  then have "get_remaining_chars_to_send (pre @ c # rest) confirmed = Inr (c # rest)"
    by (simp add: get_remaining_chars_to_send_def)
  with table single cp show ?thesis by simp
qed

theorem multi_character_replacement_is_resume_point_witness:
  "scan (map custom_decode (chars ''a'')) (drop 1 (chars '' ab'')) 0 0 = Inr (None, 1) \<and>
   1 < length (drop 1 (chars '' ab'')) \<and>
   custom_decode [0xA3] \<notin> set (drop 1 (drop 1 (chars '' ab''))) \<and>
   custom_decode [0xA3] = str ''GBP'' \<and>
   continue_point (chars ''a'' @ [0xA3] # chars ''b'') (chars '' ab'') = Inr (Some 1) \<and>
   get_remaining_chars_to_send (chars ''a'' @ [0xA3] # chars ''b'') (chars '' ab'') =
     Inr ([0xA3] # chars ''b'')"
proof -
  have h1: "[0xA3] \<in> {[0xA3], [0x20AC], [0x2026 :: nat]}"
    by simp
  have h2: "scan (map custom_decode (chars ''a'')) (drop 1 (chars '' ab'')) 0 0 = Inr (None, 1)"
    by (simp add: alignment_defs)
  have h3: "1 < length (drop 1 (chars '' ab''))"
    by (simp add: chars_def)
  have h4: "custom_decode [0xA3] \<notin> set (drop 1 (drop 1 (chars '' ab'')))"
    by (simp add: chars_def custom_decode_def special_chars_def)
  have g: "custom_decode [0xA3] = str ''GBP''"
    by (simp add: str_def custom_decode_def special_chars_def)
  have l: "length (chars ''a'') = 1"
    by (simp add: chars_def)
  from multi_character_replacement_is_resume_point [OF h1 h2 h3 h4, of 0 "chars ''b''"]
    h2 h3 h4 g l
  show ?thesis by simp
qed

section \<open>Properties of the word chunker\<close>

lemma text_chunker_loop_fragments:
  "text_chunker_loop (map Some fragments @ [None]) buffer out =
     text_chunker_loop [None]
       (fst (foldl chunk_char (buffer, out) (concat fragments)))
       (snd (foldl chunk_char (buffer, out) (concat fragments)))"
proof (induction fragments arbitrary: buffer out)
  case Nil
  show ?case by simp
next
  case (Cons f fs)
  obtain b' o' where step: "foldl chunk_char (buffer, out) f = (b', o')"
    by (cases "foldl chunk_char (buffer, out) f")
  with Cons.IH [of b' o'] show ?case by simp
qed

lemma text_chunker_fragments:
  assumes "foldl chunk_char ([], []) (concat fragments) = (buffer, out)"
  shows "text_chunker (fragments_then_end fragments) =
           ((if buffer \<noteq> [] then out @ [Some (buffer @ [space])] else out) @ [None], Finished)"
  using assms by (simp add: text_chunker_def fragments_then_end_def text_chunker_loop_fragments)

lemma is_text_unit_word: "w \<noteq> [] \<Longrightarrow> space \<notin> set w \<Longrightarrow> is_text_unit (w @ [space])"
  by (simp add: is_text_unit_def)

lemma chunk_char_units:
  assumes "space \<notin> set buffer" and "list_all is_text_unit units"
  shows "\<exists>buffer' units'. chunk_char (buffer, map Some units) c = (buffer', map Some units') \<and>
           space \<notin> set buffer' \<and> list_all is_text_unit units'"
proof (cases "c = space \<and> buffer \<noteq> []")
  case True
  with assms have "list_all is_text_unit (units @ [buffer @ [space]])"
    by (simp add: is_text_unit_word)
  moreover from True
  have "chunk_char (buffer, map Some units) c = ([], map Some (units @ [buffer @ [space]]))"
    by simp
  ultimately show ?thesis by (intro exI [of _ "[]"] exI [of _ "units @ [buffer @ [space]]"]) simp
next
  case False
  with assms show ?thesis by auto
qed

lemma foldl_chunk_char_units:
  assumes "space \<notin> set buffer" and "list_all is_text_unit units"
  shows "\<exists>buffer' units'. foldl chunk_char (buffer, map Some units) s = (buffer', map Some units') \<and>
           space \<notin> set buffer' \<and> list_all is_text_unit units'"
  using assms
proof (induction s arbitrary: buffer units)
  case Nil
  then show ?case by simp
next
  case (Cons c s)
  from chunk_char_units [OF Cons.prems, of c] obtain b1 u1 where
    step: "chunk_char (buffer, map Some units) c = (b1, map Some u1)"
    and inv: "space \<notin> set b1" "list_all is_text_unit u1"
    by blast
  from Cons.IH [OF inv] step show ?case by simp
qed

lemma text_chunker_units:
  "\<exists>units. text_chunker (fragments_then_end fragments) = (map Some units @ [None], Finished) \<and>
     list_all is_text_unit units"
proof -
  have "space \<notin> set ([] :: pystr)" and "list_all is_text_unit []"
    by simp_all
  from foldl_chunk_char_units [OF this, of "concat fragments"] obtain buffer units where
    run: "foldl chunk_char ([], []) (concat fragments) = (buffer, map Some units)"
    and inv: "space \<notin> set buffer" "list_all is_text_unit units"
    by auto
  let ?units = "if buffer \<noteq> [] then units @ [buffer @ [space]] else units"
  from inv have "list_all is_text_unit ?units"
    by (simp add: is_text_unit_word)
  moreover have "text_chunker (fragments_then_end fragments) = (map Some ?units @ [None], Finished)"
    by (simp add: text_chunker_fragments [OF run])
  ultimately show ?thesis by blast
qed

lemma is_text_unitD:
  assumes "is_text_unit unit"
  shows "\<exists>word. unit = word @ [space] \<and> word \<noteq> [] \<and> space \<notin> set word"
proof -
  from assms have "unit \<noteq> []" and l: "last unit = space"
    by (simp_all add: is_text_unit_def)
  then have "butlast unit @ [last unit] = unit"
    by (intro append_butlast_last_id)
  with l have "unit = butlast unit @ [space]"
    by simp
  with assms show ?thesis
    by (intro exI [of _ "butlast unit"]) (simp add: is_text_unit_def)
qed

text \<open>
  C9: for fragments followed by the end marker the chunker returns, and its output is a
  list of items that are each a non-empty run of characters other than the space
  followed by one space, then the end marker, which is the last item and occurs nowhere
  else.
\<close>

theorem chunker_emits_text_units_then_sentinel:
  "\<exists>units. text_chunker (fragments_then_end fragments) = (map Some units @ [None], Finished) \<and>
     list_all (\<lambda>unit. \<exists>word. unit = word @ [space] \<and> word \<noteq> [] \<and> space \<notin> set word) units"
proof -
  from text_chunker_units obtain units where
    out: "text_chunker (fragments_then_end fragments) = (map Some units @ [None], Finished)"
    and units: "list_all is_text_unit units"
    by blast
  from units
  have "list_all (\<lambda>unit. \<exists>word. unit = word @ [space] \<and> word \<noteq> [] \<and> space \<notin> set word) units"
    by (auto simp: list_all_iff dest: is_text_unitD)
  with out show ?thesis by blast
qed

theorem chunker_emits_text_units_then_sentinel_witness:
  "text_chunker (fragments_then_end [str '' He'', str ''llo  wor'', str ''ld '', str ''!'']) =
     (map Some [str ''Hello '', str ''world '', str ''! ''] @ [None], Finished) \<and>
   list_all (\<lambda>unit. \<exists>word. unit = word @ [space] \<and> word \<noteq> [] \<and> space \<notin> set word)
     [str ''Hello '', str ''world '', str ''! '']"
proof -
  let ?fragments = "[str '' He'', str ''llo  wor'', str ''ld '', str ''!'']"
  have run: "text_chunker (fragments_then_end ?fragments) =
      (map Some [str ''Hello '', str ''world '', str ''! ''] @ [None], Finished)"
    by (simp add: text_chunker_def fragments_then_end_def str_def space_def)
  from chunker_emits_text_units_then_sentinel [of ?fragments] obtain units where
    "text_chunker (fragments_then_end ?fragments) = (map Some units @ [None], Finished)"
    and units: "list_all (\<lambda>unit. \<exists>word. unit = word @ [space] \<and> word \<noteq> [] \<and> space \<notin> set word) units"
    by blast
  with run have "map Some units = map Some [str ''Hello '', str ''world '', str ''! '']"
    by simp
  then have "units = [str ''Hello '', str ''world '', str ''! '']"
    by (simp only: inj_map_eq_map [OF inj_Some])
  with run units show ?thesis by simp
qed

lemma no_double_space_snoc:
  "no_double_space (xs @ [x]) \<longleftrightarrow>
     no_double_space xs \<and> (xs \<noteq> [] \<longrightarrow> \<not> (last xs = space \<and> x = space))"
  by (induction xs rule: no_double_space.induct) auto

lemma text_units_items: "text_units (map Some units @ [None]) = units"
  by (simp add: text_units_def filter_map comp_def)

lemma reconstruct_snoc:
  "reconstruct (units @ [word @ [space]]) = concat units @ word"
  by (simp add: reconstruct_def strip_one_trailing_space_def)

lemma foldl_chunk_char_text:
  assumes "s \<noteq> [] \<longrightarrow> hd s \<noteq> space" and "no_double_space s"
  shows "\<exists>buffer units. foldl chunk_char ([], []) s = (buffer, map Some units) \<and>
           concat units @ buffer = s \<and> (buffer = [] \<longleftrightarrow> s = [] \<or> last s = space)"
  using assms
proof (induction s rule: rev_induct)
  case Nil
  show ?case by simp
next
  case (snoc c s)
  from snoc.prems have "s \<noteq> [] \<longrightarrow> hd s \<noteq> space" and "no_double_space s"
    by (auto simp: no_double_space_snoc)
  from snoc.IH [OF this] obtain buffer units where
    run: "foldl chunk_char ([], []) s = (buffer, map Some units)"
    and joined: "concat units @ buffer = s"
    and empty: "buffer = [] \<longleftrightarrow> s = [] \<or> last s = space"
    by blast
  show ?case
  proof (cases "c = space")
    case True
    from snoc.prems True have "s \<noteq> []" and "last s \<noteq> space"
      by (auto simp: no_double_space_snoc)
    with empty have "buffer \<noteq> []" by simp
    with run True
    have "foldl chunk_char ([], []) (s @ [c]) = ([], map Some (units @ [buffer @ [space]]))"
      by simp
    moreover from joined True have "concat (units @ [buffer @ [space]]) @ [] = s @ [c]"
      by simp
    ultimately show ?thesis using True
      by (intro exI [of _ "[]"] exI [of _ "units @ [buffer @ [space]]"]) simp
  next
    case False
    with run have "foldl chunk_char ([], []) (s @ [c]) = (buffer @ [c], map Some units)"
      by simp
    moreover from joined have "concat units @ (buffer @ [c]) = s @ [c]"
      by simp
    ultimately show ?thesis using False by (intro exI [of _ "buffer @ [c]"] exI [of _ units]) simp
  qed
qed

lemma single_spacedD:
  assumes "single_spaced s"
  shows "s \<noteq> [] \<longrightarrow> hd s \<noteq> space" and "no_double_space s"
    and "s \<noteq> [] \<longrightarrow> last s \<noteq> space"
  using assms by (cases s; simp add: single_spaced_def)+

lemma single_spaced_reconstructed:
  assumes "single_spaced (concat fragments)"
  shows "reconstruct (text_units (fst (text_chunker (fragments_then_end fragments)))) =
           concat fragments"
proof -
  let ?s = "concat fragments"
  note s = single_spacedD [OF assms]
  from foldl_chunk_char_text [OF s(1,2)] obtain buffer units where
    run: "foldl chunk_char ([], []) ?s = (buffer, map Some units)"
    and joined: "concat units @ buffer = ?s"
    and empty: "buffer = [] \<longleftrightarrow> ?s = [] \<or> last ?s = space"
    by blast
  show ?thesis
  proof (cases "buffer = []")
    case True
    with empty s(3) have nil: "?s = []" by blast
    with run have "units = []" by simp
    with True have "text_chunker (fragments_then_end fragments) = (map Some [] @ [None], Finished)"
      by (simp add: text_chunker_fragments [OF run])
    then show ?thesis
      by (simp only: fst_conv text_units_items nil) (simp add: reconstruct_def)
  next
    case False
    then have "text_chunker (fragments_then_end fragments) =
        (map Some (units @ [buffer @ [space]]) @ [None], Finished)"
      by (simp add: text_chunker_fragments [OF run])
    then show ?thesis
      by (simp only: fst_conv text_units_items reconstruct_snoc joined)
  qed
qed


lemma no_double_space_append:
  "no_double_space (xs @ ys) \<longleftrightarrow>
     no_double_space xs \<and> no_double_space ys \<and>
     (xs \<noteq> [] \<and> ys \<noteq> [] \<longrightarrow> \<not> (last xs = space \<and> hd ys = space))"
  by (induction xs rule: no_double_space.induct; cases ys; simp; blast?)

lemma no_space_no_double_space: "space \<notin> set w \<Longrightarrow> no_double_space w"
  by (induction w rule: no_double_space.induct) auto

lemma single_spaced_units_word:
  assumes "list_all is_text_unit units" and "w \<noteq> []" and "space \<notin> set w"
  shows "single_spaced (concat units @ w)"
  using assms(1)
proof (induction units)
  case Nil
  from assms(2,3) have "hd w \<noteq> space" and "last w \<noteq> space"
    by (metis hd_in_set, metis last_in_set)
  with assms(3) show ?case
    by (simp add: single_spaced_def no_space_no_double_space)
next
  case (Cons u us)
  from Cons.prems have "is_text_unit u" and "list_all is_text_unit us"
    by simp_all
  from is_text_unitD [OF this(1)] obtain v where
    u: "u = v @ [space]" and v: "v \<noteq> []" "space \<notin> set v"
    by blast
  let ?r = "concat us @ w"
  from assms(2) have r: "?r \<noteq> []" by simp
  note d = single_spacedD [OF Cons.IH [OF \<open>list_all is_text_unit us\<close>]]
  from d(1,3) r have ends: "hd ?r \<noteq> space" "last ?r \<noteq> space"
    by blast+
  from d(2) have inner: "no_double_space ?r" .
  from v have vs: "hd v \<noteq> space" "last v \<noteq> space"
    by (metis hd_in_set, metis last_in_set)
  have whole: "concat (u # us) @ w = v @ ([space] @ ?r)"
    by (simp add: u)
  from ends(1) inner r have "no_double_space ([space] @ ?r)"
    by (simp only: no_double_space_append) simp
  with v vs have "no_double_space (v @ ([space] @ ?r))"
    by (simp only: no_double_space_append) (simp add: no_space_no_double_space)
  moreover from v vs have "hd (v @ ([space] @ ?r)) \<noteq> space"
    by simp
  moreover from r ends(2) have "last (v @ ([space] @ ?r)) \<noteq> space"
    by simp
  ultimately show ?case
    by (simp only: whole single_spaced_def) simp
qed

lemma single_spaced_reconstruct:
  assumes "list_all is_text_unit units"
  shows "single_spaced (reconstruct units)"
proof (cases units rule: rev_cases)
  case Nil
  then show ?thesis by (simp add: reconstruct_def single_spaced_def)
next
  case (snoc us u)
  with assms have "is_text_unit u" and us: "list_all is_text_unit us"
    by simp_all
  from is_text_unitD [OF this(1)] obtain v where
    u: "u = v @ [space]" and v: "v \<noteq> []" "space \<notin> set v"
    by blast
  from single_spaced_units_word [OF us v] show ?thesis
    by (simp only: snoc u reconstruct_snoc)
qed

text \<open>
  C7, as the specification states it: for every sequence of fragments, joining the
  emitted TextUnits, one trailing space stripped from the last, gives back the joined
  fragments. It fails for two adjacent spaces: a space met with an empty buffer emits
  nothing, so \<open>"a  b"\<close> comes back as \<open>"a b"\<close>.
\<close>

theorem double_space_not_reconstructed:
  "reconstruct (text_units (fst (text_chunker (fragments_then_end [str ''a  b''])))) = str ''a b'' \<and>
   concat [str ''a  b''] \<noteq> str ''a b''"
  by (simp add: text_chunker_def fragments_then_end_def text_units_def reconstruct_def
      strip_one_trailing_space_def str_def space_def)

text \<open>
  C7, amended: for every sequence of fragments followed by the end marker, joining the
  emitted TextUnits, one trailing space stripped from the last, gives back the joined
  fragments exactly when the joined fragments have no space at the start, no space at
  the end and no two adjacent spaces (the empty text included).
\<close>

theorem chunker_reconstructs_single_spaced_text:
  "reconstruct (text_units (fst (text_chunker (fragments_then_end fragments)))) = concat fragments
     \<longleftrightarrow> single_spaced (concat fragments)"
proof
  assume "single_spaced (concat fragments)"
  then show "reconstruct (text_units (fst (text_chunker (fragments_then_end fragments)))) =
      concat fragments"
    by (rule single_spaced_reconstructed)
next
  assume same: "reconstruct (text_units (fst (text_chunker (fragments_then_end fragments)))) =
      concat fragments"
  from text_chunker_units obtain units where
    out: "text_chunker (fragments_then_end fragments) = (map Some units @ [None], Finished)"
    and units: "list_all is_text_unit units"
    by blast
  from out have "text_units (fst (text_chunker (fragments_then_end fragments))) = units"
    by (simp only: fst_conv text_units_items)
  with single_spaced_reconstruct [OF units] same show "single_spaced (concat fragments)"
    by simp
qed

theorem chunker_reconstructs_single_spaced_text_witness:
  "single_spaced (concat [str ''He'', str ''llo wor'', str ''ld'']) \<and>
   text_chunker (fragments_then_end [str ''He'', str ''llo wor'', str ''ld'']) =
     ([Some (str ''Hello ''), Some (str ''world ''), None], Finished) \<and>
   reconstruct (text_units (fst (text_chunker (fragments_then_end [str ''He'', str ''llo wor'', str ''ld''])))) =
     str ''Hello world''"
proof -
  have h: "single_spaced (concat [str ''He'', str ''llo wor'', str ''ld''])"
    by (simp add: single_spaced_def str_def space_def)
  have c: "concat [str ''He'', str ''llo wor'', str ''ld''] = str ''Hello world''"
    by (simp add: str_def)
  have o: "text_chunker (fragments_then_end [str ''He'', str ''llo wor'', str ''ld'']) =
      ([Some (str ''Hello ''), Some (str ''world ''), None], Finished)"
    by (simp add: text_chunker_def fragments_then_end_def str_def space_def)
  from chunker_reconstructs_single_spaced_text [of "[str ''He'', str ''llo wor'', str ''ld'']"] h c o
  show ?thesis by simp
qed

section \<open>Properties of the playback process\<close>

text \<open>
  C8: when the object holds a handle and \<^verbatim>\<open>poll()\<close> says that its process runs,
  \<^verbatim>\<open>start_process\<close> leaves the object and the system as they are: the handle is the
  same and nothing is launched, whether the call returns or, the executable not being
  found, raises. So a second call right after a call that returned changes nothing.
\<close>

theorem start_process_keeps_running_process:
  "(process self = Some p \<and> poll os p = None \<longrightarrow>
      start_process os self = (if mpv_on_path os then None else Some MpvNotFound, self, os)) \<and>
   (start_process os self = (None, self', os') \<longrightarrow>
      start_process os' self' = (None, self', os'))"
proof (intro conjI impI)
  assume "process self = Some p \<and> poll os p = None"
  then show "start_process os self = (if mpv_on_path os then None else Some MpvNotFound, self, os)"
    by (simp add: start_process_def)
next
  assume first: "start_process os self = (None, self', os')"
  then have path: "mpv_on_path os"
    by (auto simp: start_process_def split: if_splits)
  show "start_process os' self' = (None, self', os')"
  proof (cases "case process self of None \<Rightarrow> True | Some p \<Rightarrow> poll os p \<noteq> None")
    case True
    with first path have "self' = self\<lparr>process := Some (launched os)\<rparr>"
      and "os' = os\<lparr>launched := launched os + 1, poll := (poll os)(launched os := None)\<rparr>"
      by (simp_all add: start_process_def Popen_def)
    with path show ?thesis
      by (simp add: start_process_def)
  next
    case False
    with first path have "self' = self" and "os' = os"
      by (auto simp: start_process_def)
    with first show ?thesis by simp
  qed
qed

theorem start_process_keeps_running_process_witness:
  "process \<lparr>process = Some 0\<rparr> = Some 0 \<and>
   poll \<lparr>mpv_on_path = True, launched = 1, poll = (\<lambda>h. Some 0)(0 := None)\<rparr> 0 = None \<and>
   start_process \<lparr>mpv_on_path = True, launched = 1, poll = (\<lambda>h. Some 0)(0 := None)\<rparr>
       \<lparr>process = Some 0\<rparr> =
     (None, \<lparr>process = Some 0\<rparr>,
      \<lparr>mpv_on_path = True, launched = 1, poll = (\<lambda>h. Some 0)(0 := None)\<rparr>) \<and>
   start_process \<lparr>mpv_on_path = True, launched = 0, poll = (\<lambda>h. Some 0)\<rparr> \<lparr>process = None\<rparr> =
     (None, \<lparr>process = Some 0\<rparr>,
      \<lparr>mpv_on_path = True, launched = 1, poll = (\<lambda>h. Some 0)(0 := None)\<rparr>)"
proof -
  have first: "start_process \<lparr>mpv_on_path = True, launched = 0, poll = (\<lambda>h. Some 0)\<rparr>
        \<lparr>process = None\<rparr> =
      (None, \<lparr>process = Some 0\<rparr>,
       \<lparr>mpv_on_path = True, launched = 1, poll = (\<lambda>h. Some 0)(0 := None)\<rparr>)"
    by (simp add: start_process_def Popen_def)
  from start_process_keeps_running_process
    [of "\<lparr>process = None\<rparr>" 0 "\<lparr>mpv_on_path = True, launched = 0, poll = (\<lambda>h. Some 0)\<rparr>"
      "\<lparr>process = Some 0\<rparr>"
      "\<lparr>mpv_on_path = True, launched = 1, poll = (\<lambda>h. Some 0)(0 := None)\<rparr>"]
    start_process_keeps_running_process
    [of "\<lparr>process = Some 0\<rparr>" 0
      "\<lparr>mpv_on_path = True, launched = 1, poll = (\<lambda>h. Some 0)(0 := None)\<rparr>"]
    first
  show ?thesis by simp
qed

end
